theory Spec2Isabelle
  imports Complex_Main "HOL-Library.Word"
begin

section \<open>JavaScript strings\<close>

text \<open>
  A JavaScript string is a sequence of UTF-16 code units. The regular expression
  \<^verbatim>\<open>/\s+/\<close> (no \<^verbatim>\<open>u\<close> flag) and \<^verbatim>\<open>String.prototype.trim\<close> work on code units,
  and every character they treat as white space lies in the basic plane.
\<close>

type_synonym jschar = "16 word"
type_synonym jsstring = "jschar list"

text \<open>An ASCII literal of the source as a JavaScript string.\<close>

definition lit :: "string \<Rightarrow> jsstring" where
  "lit s = map (\<lambda>c. of_nat (of_char c)) s"

text \<open>
  The code units matched by \<^verbatim>\<open>\s\<close> and stripped by \<^verbatim>\<open>trim\<close>: ECMAScript's WhiteSpace
  (TAB, VT, FF, SP, NBSP, ZWNBSP and the category Zs) and LineTerminator (LF, CR, LS, PS).
\<close>

definition is_ws :: "jschar \<Rightarrow> bool" where
  "is_ws c = (c = 0x9 \<or> c = 0xA \<or> c = 0xB \<or> c = 0xC \<or> c = 0xD \<or> c = 0x20 \<or> c = 0xA0
     \<or> c = 0x1680 \<or> (0x2000 \<le> c \<and> c \<le> 0x200A) \<or> c = 0x2028 \<or> c = 0x2029
     \<or> c = 0x202F \<or> c = 0x205F \<or> c = 0x3000 \<or> c = 0xFEFF)"

text \<open>The separator of \<^verbatim>\<open>join(" ")\<close>: one space.\<close>

definition sp :: jsstring where
  "sp = [0x20]"

text \<open>
  \<^verbatim>\<open>text.split(/\s+/)\<close>. The standard's algorithm scans for the next position where the
  pattern matches; the substring before it is emitted, the scan resumes after the match
  (the greedy run of white space), and the rest of the string is emitted at the end. So a
  string that starts (ends) with white space yields an empty first (last) token, and the
  empty string yields one empty token.
\<close>

function split_ws :: "jsstring \<Rightarrow> jsstring list" where
  "split_ws s =
     (case dropWhile (\<lambda>c. \<not> is_ws c) s of
        [] \<Rightarrow> [takeWhile (\<lambda>c. \<not> is_ws c) s]
      | _ # r \<Rightarrow> takeWhile (\<lambda>c. \<not> is_ws c) s # split_ws (dropWhile is_ws r))"
  by pat_completeness auto
termination
proof (relation "measure length", goal_cases)
  case 1
  show ?case by simp
next
  case (2 s c r)
  have "length (dropWhile is_ws r) \<le> length r"
    by (rule length_dropWhile_le)
  moreover have "length (c # r) \<le> length s"
    unfolding 2 [symmetric] by (rule length_dropWhile_le)
  ultimately show ?case by simp
qed

text \<open>\<^verbatim>\<open>Array.prototype.join(sep)\<close> on an array of strings.\<close>

fun join :: "jsstring \<Rightarrow> jsstring list \<Rightarrow> jsstring" where
  "join sep [] = []"
| "join sep [x] = x"
| "join sep (x # y # ys) = x @ sep @ join sep (y # ys)"

text \<open>
  \<^verbatim>\<open>Array.prototype.slice(start, end)\<close> for integer indices \<open>0 \<le> start\<close>: the elements
  from \<open>start\<close> up to, not including, \<open>min end length\<close>; empty when \<open>end \<le> start\<close>.
\<close>

definition slice :: "'a list \<Rightarrow> nat \<Rightarrow> nat \<Rightarrow> 'a list" where
  "slice xs start end = take (end - start) (drop start xs)"

text \<open>\<^verbatim>\<open>String.prototype.trim\<close>: white space removed at both ends.\<close>

definition trim :: "jsstring \<Rightarrow> jsstring" where
  "trim s = rev (dropWhile is_ws (rev (dropWhile is_ws s)))"

text \<open>\<^verbatim>\<open>String.prototype.includes(search)\<close>: \<open>search\<close> occurs as a substring.\<close>

fun str_includes :: "jsstring \<Rightarrow> jsstring \<Rightarrow> bool" where
  "str_includes [] search = (search = [])"
| "str_includes (c # cs) search =
     (take (length search) (c # cs) = search \<or> str_includes cs search)"

section \<open>Errors\<close>

text \<open>
  A thrown value: \<^verbatim>\<open>new Error(message)\<close>, or a \<^verbatim>\<open>TypeError\<close> raised by the language
  itself. Both carry a message; the wording of a \<^verbatim>\<open>TypeError\<close> is the engine's.
\<close>

datatype js_error = Error jsstring | TypeError jsstring

fun message :: "js_error \<Rightarrow> jsstring" where
  "message (Error m) = m"
| "message (TypeError m) = m"

section \<open>The chunker\<close>

text \<open>
  The loop of \<^verbatim>\<open>chunkText\<close>:
  \<^verbatim>\<open>for (let i = 0; i < words.length; i += maxWords) chunks.push(words.slice(i, i + maxWords).join(" "))\<close>.
  It is entered only after \<^verbatim>\<open>maxWords <= 0\<close> has been rejected; the conjunct
  \<open>0 < maxWords\<close> of the loop condition restates that, for the termination proof.
\<close>

function chunk_loop :: "jsstring list \<Rightarrow> nat \<Rightarrow> nat \<Rightarrow> jsstring list \<Rightarrow> jsstring list" where
  "chunk_loop words maxWords i chunks =
     (if i < length words \<and> 0 < maxWords
      then chunk_loop words maxWords (i + maxWords)
             (chunks @ [join sp (slice words i (i + maxWords))])
      else chunks)"
  by pat_completeness auto
termination
  by (relation "measure (\<lambda>(words, maxWords, i, chunks). length words - i)") auto

text \<open>
  \<^verbatim>\<open>chunkText(text, maxWords)\<close>. \<open>text\<close> is a string (the parameter's type), so
  \<^verbatim>\<open>!text\<close> holds exactly for the empty string; \<open>maxWords\<close> is an integer, as the
  contract has it (the one call passes 500), so \<^verbatim>\<open>!maxWords\<close> is \<open>maxWords = 0\<close>.
\<close>

definition chunkText :: "jsstring \<Rightarrow> int \<Rightarrow> js_error + jsstring list" where
  "chunkText text maxWords =
     (if text = [] then Inl (Error (lit ''Invalid input: text must be a non-empty string''))
      else if maxWords = 0 \<or> maxWords \<le> 0
      then Inl (Error (lit ''Invalid input: maxWords must be a positive number''))
      else Inr (chunk_loop (split_ws text) (nat maxWords) 0 []))"

section \<open>Vector math\<close>

text \<open>
  Numbers are IEEE doubles in the source. \<^verbatim>\<open>cosineSimilarity\<close> is modelled under exact real
  arithmetic: the definition below says nothing about rounding, underflow, overflow or NaN,
  and stands for the function only where a statement is about exact arithmetic. Where the
  program depends on the value the machine computes, that function is a parameter (see the
  relevance ranker).

  \<^verbatim>\<open>a.reduce((acc, val, i) => f(acc, val, i), init)\<close>: a left fold that also passes the index.
\<close>

fun reduce :: "('b \<Rightarrow> 'a \<Rightarrow> nat \<Rightarrow> 'b) \<Rightarrow> 'b \<Rightarrow> nat \<Rightarrow> 'a list \<Rightarrow> 'b" where
  "reduce f acc i [] = acc"
| "reduce f acc i (val # rest) = reduce f (f acc val i) (Suc i) rest"

definition cosineSimilarity :: "real list \<Rightarrow> real list \<Rightarrow> js_error + real" where
  "cosineSimilarity a b =
     (if a = [] \<or> b = []
      then Inl (Error (lit ''Invalid input: vectors must be non-empty arrays''))
      else if length a \<noteq> length b
      then Inl (Error (lit ''Vectors must have the same length''))
      else
        let dot = reduce (\<lambda>sum val i. sum + val * b ! i) 0 0 a;
            magA = sqrt (reduce (\<lambda>sum val i. sum + val * val) 0 0 a);
            magB = sqrt (reduce (\<lambda>sum val i. sum + val * val) 0 0 b)
        in if magA = 0 \<or> magB = 0
           then Inl (Error (lit ''Invalid vectors: magnitude cannot be zero''))
           else Inr (dot / (magA * magB)))"

section \<open>The relevance ranker\<close>

text \<open>
  The ranker calls \<^verbatim>\<open>cosineSimilarity\<close> and orders the chunks by the scores the machine
  computes, in IEEE double arithmetic. That arithmetic is not modelled, so the function as
  the machine evaluates it is the parameter \<open>similarity\<close>: for two vectors it gives the
  error thrown or the score returned. A score is a real number, as in the specification's
  data model (the value of a finite double); a computation that ends in NaN or an infinity
  is outside the model. Under exact arithmetic the parameter is \<^const>\<open>cosineSimilarity\<close>.

  \<^verbatim>\<open>docEmbeddings.map((embedding, index) => ({ index, score: cosineSimilarity(...) }))\<close>:
  the pairs are built in order, and the first throwing call aborts the map.
\<close>

fun similarities ::
  "(real list \<Rightarrow> real list \<Rightarrow> js_error + real) \<Rightarrow> real list \<Rightarrow> nat \<Rightarrow> real list list
     \<Rightarrow> js_error + (nat \<times> real) list" where
  "similarities similarity queryEmbedding index [] = Inr []"
| "similarities similarity queryEmbedding index (embedding # rest) =
     (case similarity queryEmbedding embedding of
        Inl e \<Rightarrow> Inl e
      | Inr score \<Rightarrow>
          (case similarities similarity queryEmbedding (Suc index) rest of
             Inl e \<Rightarrow> Inl e
           | Inr sims \<Rightarrow> Inr ((index, score) # sims)))"

text \<open>
  \<^verbatim>\<open>findRelevantChunks(queryEmbedding, docEmbeddings, docChunks, topK = 3)\<close>, with an integer
  \<open>topK\<close>. \<^verbatim>\<open>Array.prototype.sort\<close> is stable, and the comparator
  \<^verbatim>\<open>(a, b) => b.score - a.score\<close> is a consistent order on real scores (the sign of the
  difference of two finite doubles is the sign of their comparison): the result is the
  stable sort by descending score, which \<^const>\<open>sort_key\<close> on the negated score computes.
  Every index read from \<open>docChunks\<close> is below \<open>length docEmbeddings = length docChunks\<close>.
\<close>

definition findRelevantChunks ::
  "(real list \<Rightarrow> real list \<Rightarrow> js_error + real) \<Rightarrow> real list \<Rightarrow> real list list
     \<Rightarrow> jsstring list \<Rightarrow> int \<Rightarrow> js_error + jsstring list" where
  "findRelevantChunks similarity queryEmbedding docEmbeddings docChunks topK0 =
     (if queryEmbedding = [] then Inl (Error (lit ''Invalid query embedding''))
      else if docEmbeddings = [] then Inl (Error (lit ''Invalid document embeddings''))
      else if docChunks = [] then Inl (Error (lit ''Invalid document chunks''))
      else if length docEmbeddings \<noteq> length docChunks
      then Inl (Error (lit ''Number of embeddings must match number of chunks''))
      else
        let topK = (if topK0 \<le> 0 \<or> topK0 > int (length docChunks)
                    then min 3 (int (length docChunks)) else topK0)
        in case similarities similarity queryEmbedding 0 docEmbeddings of
             Inl e \<Rightarrow> Inl e
           | Inr sims \<Rightarrow>
               Inr (map (\<lambda>(index, score). docChunks ! index)
                     (slice (sort_key (\<lambda>(index, score). - score) sims) 0 (nat topK))))"

section \<open>JSON values\<close>

text \<open>
  What \<^verbatim>\<open>req.json()\<close> yields: the handler's input is not typed, so a question or the
  document reference can be any JSON value. An object is its table of own properties.
  A property that is absent reads as \<^verbatim>\<open>undefined\<close>, modelled by \<open>None\<close>.
\<close>

datatype json =
    JNull
  | JBool bool
  | JNum real
  | JStr jsstring
  | JArr "json list"
  | JObj "(jsstring \<times> json) list"

text \<open>Reading a property of the parsed body (its own properties; none of the inherited
  ones is named \<^verbatim>\<open>documents\<close> or \<^verbatim>\<open>questions\<close>).\<close>

fun get_property :: "json \<Rightarrow> jsstring \<Rightarrow> json option" where
  "get_property (JObj props) name = map_of props name"
| "get_property _ name = None"

text \<open>\<^verbatim>\<open>!v\<close> is \<open>\<not> truthy v\<close>.\<close>

fun truthy :: "json option \<Rightarrow> bool" where
  "truthy None = False"
| "truthy (Some JNull) = False"
| "truthy (Some (JBool b)) = b"
| "truthy (Some (JNum n)) = (n \<noteq> 0)"
| "truthy (Some (JStr s)) = (s \<noteq> [])"
| "truthy (Some (JArr xs)) = True"
| "truthy (Some (JObj props)) = True"

fun isArray :: "json option \<Rightarrow> bool" where
  "isArray (Some (JArr xs)) = True"
| "isArray _ = False"

text \<open>The elements of an array value (used after \<^const>\<open>isArray\<close> has held).\<close>

fun elements :: "json option \<Rightarrow> json list" where
  "elements (Some (JArr xs)) = xs"
| "elements _ = []"

text \<open>
  The string conversion of a template literal, \<^verbatim>\<open>`${v}`\<close>. The first argument is
  \<^verbatim>\<open>Number::toString\<close>, which is not modelled digit by digit. An array converts by
  \<^verbatim>\<open>join(",")\<close>, where \<^verbatim>\<open>null\<close> elements give the empty string. An object converts through
  its \<^verbatim>\<open>toString\<close> and \<^verbatim>\<open>valueOf\<close>: the inherited \<^verbatim>\<open>toString\<close> gives
  \<^verbatim>\<open>[object Object]\<close>; an own property \<^verbatim>\<open>toString\<close> holds a JSON value, which is not
  callable, and \<^verbatim>\<open>valueOf\<close> then gives no primitive either (the inherited one returns the
  object, an own one is not callable), so the conversion throws a \<^verbatim>\<open>TypeError\<close>.
\<close>

fun to_string :: "(real \<Rightarrow> jsstring) \<Rightarrow> json \<Rightarrow> js_error + jsstring"
  and elements_to_strings :: "(real \<Rightarrow> jsstring) \<Rightarrow> json list \<Rightarrow> js_error + jsstring list"
where
  "to_string num JNull = Inr (lit ''null'')"
| "to_string num (JBool b) = Inr (if b then lit ''true'' else lit ''false'')"
| "to_string num (JNum n) = Inr (num n)"
| "to_string num (JStr s) = Inr s"
| "to_string num (JArr xs) =
     (case elements_to_strings num xs of
        Inl e \<Rightarrow> Inl e
      | Inr strs \<Rightarrow> Inr (join (lit '','') strs))"
| "to_string num (JObj props) =
     (case map_of props (lit ''toString'') of
        None \<Rightarrow> Inr (lit ''[object Object]'')
      | Some v \<Rightarrow> Inl (TypeError (lit ''Cannot convert object to primitive value'')))"
| "elements_to_strings num [] = Inr []"
| "elements_to_strings num (x # xs) =
     (case (if x = JNull then Inr [] else to_string num x) of
        Inl e \<Rightarrow> Inl e
      | Inr str \<Rightarrow>
          (case elements_to_strings num xs of
             Inl e \<Rightarrow> Inl e
           | Inr strs \<Rightarrow> Inr (str # strs)))"

section \<open>External services and the state of a request\<close>

text \<open>
  The collaborators are outside the program: the HTTP fetch, the PDF parser, the embedding
  service and the answer synthesis (\<^verbatim>\<open>askOpenRouter\<close>, imported from another module). Each
  is a parameter: a function of its arguments and of the state of the outside world
  \<open>'w\<close>, returning a result or a thrown error, and the next state of the world. So a
  service may answer the same call differently each time. The record also holds the two
  functions of the machine that are not modelled: \<^verbatim>\<open>Number::toString\<close>, and
  \<^verbatim>\<open>cosineSimilarity\<close> as evaluated in double arithmetic (the parameter of the ranker).
\<close>

record fetch_response =
  res_ok :: bool
  res_status :: nat
  res_text :: "js_error + jsstring"
  res_content_type :: "jsstring option"
  res_byteLength :: "js_error + nat"

record 'w services =
  fetch :: "json option \<Rightarrow> 'w \<Rightarrow> (js_error + fetch_response) \<times> 'w"
  pdf :: "'w \<Rightarrow> (js_error + jsstring) \<times> 'w"
  embeddings_create :: "jsstring list \<Rightarrow> 'w \<Rightarrow> (js_error + real list list) \<times> 'w"
  askOpenRouter :: "jsstring \<Rightarrow> jsstring list \<Rightarrow> 'w \<Rightarrow> (js_error + jsstring) \<times> 'w"
  number_to_string :: "real \<Rightarrow> jsstring"
  similarity :: "real list \<Rightarrow> real list \<Rightarrow> js_error + real"

text \<open>
  The calls a request makes are recorded in order, with the pause between two embedding
  batches. Console output is not modelled.
\<close>

datatype event =
    FetchCall "json option"
  | PdfCall
  | EmbeddingsCall "jsstring list"
  | Pause
  | AskCall jsstring "jsstring list"

type_synonym 'w state = "'w \<times> event list"

definition call_fetch ::
  "'w services \<Rightarrow> json option \<Rightarrow> 'w state \<Rightarrow> (js_error + fetch_response) \<times> 'w state" where
  "call_fetch svc documents st =
     (case st of (w, trace) \<Rightarrow>
        (case fetch svc documents w of (r, w') \<Rightarrow> (r, (w', trace @ [FetchCall documents]))))"

definition call_pdf :: "'w services \<Rightarrow> 'w state \<Rightarrow> (js_error + jsstring) \<times> 'w state" where
  "call_pdf svc st =
     (case st of (w, trace) \<Rightarrow> (case pdf svc w of (r, w') \<Rightarrow> (r, (w', trace @ [PdfCall]))))"

definition call_embeddings ::
  "'w services \<Rightarrow> jsstring list \<Rightarrow> 'w state \<Rightarrow> (js_error + real list list) \<times> 'w state" where
  "call_embeddings svc batch st =
     (case st of (w, trace) \<Rightarrow>
        (case embeddings_create svc batch w of (r, w') \<Rightarrow> (r, (w', trace @ [EmbeddingsCall batch]))))"

definition call_ask ::
  "'w services \<Rightarrow> jsstring \<Rightarrow> jsstring list \<Rightarrow> 'w state \<Rightarrow> (js_error + jsstring) \<times> 'w state" where
  "call_ask svc question relevantChunks st =
     (case st of (w, trace) \<Rightarrow>
        (case askOpenRouter svc question relevantChunks w of
           (r, w') \<Rightarrow> (r, (w', trace @ [AskCall question relevantChunks]))))"

definition pause :: "'w state \<Rightarrow> 'w state" where
  "pause st = (case st of (w, trace) \<Rightarrow> (w, trace @ [Pause]))"

section \<open>The embedding client\<close>

text \<open>
  The loop of \<^verbatim>\<open>getEmbeddings\<close>, with \<^verbatim>\<open>batchSize = 10\<close>: one service call per slice of
  ten texts, the vectors of the response appended to \<open>embeddings\<close>, and a pause when
  another batch follows. A call that throws ends the loop.
\<close>

function embed_loop ::
  "'w services \<Rightarrow> jsstring list \<Rightarrow> nat \<Rightarrow> real list list \<Rightarrow> 'w state
     \<Rightarrow> (js_error + real list list) \<times> 'w state" where
  "embed_loop svc texts i embeddings st =
     (if i < length texts
      then (case call_embeddings svc (slice texts i (i + 10)) st of
              (Inl e, st') \<Rightarrow> (Inl e, st')
            | (Inr data, st') \<Rightarrow>
                embed_loop svc texts (i + 10) (embeddings @ data)
                  (if i + 10 < length texts then pause st' else st'))
      else (Inr embeddings, st))"
  by pat_completeness auto
termination
  by (relation "measure (\<lambda>(svc, texts, i, embeddings, st). length texts - i)") auto

text \<open>
  \<^verbatim>\<open>getEmbeddings(texts)\<close>. The check of the argument stands inside the \<^verbatim>\<open>try\<close> block,
  whose \<^verbatim>\<open>catch\<close> replaces whatever was thrown by one fixed error.
\<close>

definition getEmbeddings ::
  "'w services \<Rightarrow> jsstring list \<Rightarrow> 'w state \<Rightarrow> (js_error + real list list) \<times> 'w state" where
  "getEmbeddings svc texts st =
     (case (if texts = []
            then (Inl (Error (lit ''Invalid input: texts must be a non-empty array of strings'')), st)
            else embed_loop svc texts 0 [] st) of
        (Inl error, st') \<Rightarrow> (Inl (Error (lit ''Failed to generate embeddings'')), st')
      | (Inr embeddings, st') \<Rightarrow> (Inr embeddings, st'))"

section \<open>The request handler\<close>

text \<open>
  Step 1 of \<^verbatim>\<open>POST\<close>, the body of its first inner \<^verbatim>\<open>try\<close>: the text of the document,
  or the error thrown on the way.
\<close>

definition download ::
  "'w services \<Rightarrow> json option \<Rightarrow> 'w state \<Rightarrow> (js_error + jsstring) \<times> 'w state" where
  "download svc documents st =
     (case call_fetch svc documents st of
        (Inl e, st1) \<Rightarrow> (Inl e, st1)
      | (Inr pdfRes, st1) \<Rightarrow>
          if \<not> res_ok pdfRes
          then (Inl (Error (lit ''Failed to download document. Status: ''
                  @ number_to_string svc (real (res_status pdfRes)) @ lit '', Details: ''
                  @ (case res_text pdfRes of
                       Inl _ \<Rightarrow> lit ''No error details available''
                     | Inr errorText \<Rightarrow> errorText))), st1)
          else if \<not> (case res_content_type pdfRes of
                        None \<Rightarrow> False
                      | Some contentType \<Rightarrow> str_includes contentType (lit ''application/pdf''))
          then (Inl (Error (lit ''Invalid content type: ''
                  @ (case res_content_type pdfRes of
                       None \<Rightarrow> lit ''null''
                     | Some contentType \<Rightarrow> contentType)
                  @ lit ''. Expected PDF document.'')), st1)
          else (case res_byteLength pdfRes of
                  Inl e \<Rightarrow> (Inl e, st1)
                | Inr byteLength \<Rightarrow>
                    if byteLength = 0 then (Inl (Error (lit ''Received empty PDF buffer'')), st1)
                    else (case call_pdf svc st1 of
                            (Inl e, st2) \<Rightarrow> (Inl e, st2)
                          | (Inr fullText, st2) \<Rightarrow>
                              if trim fullText = []
                              then (Inl (Error (lit
                                ''PDF parsing succeeded but extracted text is empty'')), st2)
                              else (Inr fullText, st2))))"

text \<open>
  The body of the \<^verbatim>\<open>try\<close> of one iteration of the question loop: the string pushed to
  \<open>results\<close>, or the error thrown. \<^verbatim>\<open>question.trim()\<close> is a method call: on \<^verbatim>\<open>null\<close>
  the property read throws, and on any other value that is not a string the property is
  absent or not callable, so the call throws. The destructuring
  \<^verbatim>\<open>const [questionEmbedding] = ...\<close> of an empty array gives \<^verbatim>\<open>undefined\<close>, which
  \<^verbatim>\<open>findRelevantChunks\<close> rejects with its first check. \<open>topK\<close> takes its default, 3.
\<close>

definition try_question ::
  "'w services \<Rightarrow> real list list \<Rightarrow> jsstring list \<Rightarrow> json \<Rightarrow> 'w state
     \<Rightarrow> (js_error + jsstring) \<times> 'w state" where
  "try_question svc chunkEmbeddings chunks question st =
     (case question of
        JStr q \<Rightarrow>
          if trim q = [] then (Inr (lit ''Error: Empty question provided''), st)
          else (case getEmbeddings svc [q] st of
                  (Inl e, st1) \<Rightarrow> (Inl e, st1)
                | (Inr embs, st1) \<Rightarrow>
                    (case (case embs of
                             [] \<Rightarrow> Inl (Error (lit ''Invalid query embedding''))
                           | questionEmbedding # _ \<Rightarrow>
                               findRelevantChunks (similarity svc) questionEmbedding
                                 chunkEmbeddings chunks 3) of
                       Inl e \<Rightarrow> (Inl e, st1)
                     | Inr relevantChunks \<Rightarrow> call_ask svc q relevantChunks st1))
      | JNull \<Rightarrow> (Inl (TypeError (lit ''Cannot read properties of null'')), st)
      | _ \<Rightarrow> (Inl (TypeError (lit ''question.trim is not a function'')), st))"

text \<open>
  One iteration with its \<^verbatim>\<open>catch\<close>. The handler builds two template literals from
  \<open>question\<close>; an error thrown by that conversion is thrown by the handler itself, and
  leaves the loop.
\<close>

definition process_question ::
  "'w services \<Rightarrow> real list list \<Rightarrow> jsstring list \<Rightarrow> json \<Rightarrow> 'w state
     \<Rightarrow> (js_error + jsstring) \<times> 'w state" where
  "process_question svc chunkEmbeddings chunks question st =
     (case try_question svc chunkEmbeddings chunks question st of
        (Inr result, st') \<Rightarrow> (Inr result, st')
      | (Inl error, st') \<Rightarrow>
          (case to_string (number_to_string svc) question of
             Inl e \<Rightarrow> (Inl e, st')
           | Inr str \<Rightarrow> (Inr (lit ''Error: Failed to process the question: '' @ str), st')))"

text \<open>\<^verbatim>\<open>for (const question of questions) { ... }\<close>, pushing to \<open>results\<close>.\<close>

fun question_loop ::
  "'w services \<Rightarrow> real list list \<Rightarrow> jsstring list \<Rightarrow> json list \<Rightarrow> jsstring list
     \<Rightarrow> 'w state \<Rightarrow> (js_error + jsstring list) \<times> 'w state" where
  "question_loop svc chunkEmbeddings chunks [] results st = (Inr results, st)"
| "question_loop svc chunkEmbeddings chunks (question # rest) results st =
     (case process_question svc chunkEmbeddings chunks question st of
        (Inl e, st') \<Rightarrow> (Inl e, st')
      | (Inr result, st') \<Rightarrow>
          question_loop svc chunkEmbeddings chunks rest (results @ [result]) st')"

text \<open>
  The response: \<^verbatim>\<open>{ answers }\<close> with status 200, or \<^verbatim>\<open>{ error }\<close> with the given status.
\<close>

datatype response = Answers "jsstring list" | Failure nat jsstring

text \<open>
  The body of the outer \<^verbatim>\<open>try\<close> of \<^verbatim>\<open>POST\<close>: the response returned, or the error
  that reaches the outer \<^verbatim>\<open>catch\<close>. The request is the outcome of \<^verbatim>\<open>req.json()\<close>;
  destructuring \<^verbatim>\<open>null\<close> throws.
\<close>

definition handle ::
  "'w services \<Rightarrow> js_error + json \<Rightarrow> 'w state \<Rightarrow> (js_error + response) \<times> 'w state" where
  "handle svc req st =
     (case req of
        Inl e \<Rightarrow> (Inl e, st)
      | Inr JNull \<Rightarrow> (Inl (TypeError (lit ''Cannot destructure property of null'')), st)
      | Inr body \<Rightarrow>
          let documents = get_property body (lit ''documents'');
              questions = get_property body (lit ''questions'')
          in if \<not> truthy documents \<or> \<not> truthy questions \<or> \<not> isArray questions
                \<or> length (elements questions) = 0
             then (Inr (Failure 400 (lit
               ''Invalid request. Please provide documents URL and questions array.'')), st)
             else (case download svc documents st of
                (Inl error, st1) \<Rightarrow>
                  (Inr (Failure 500
                     (lit ''Failed to fetch or parse the PDF document: '' @ message error)), st1)
              | (Inr fullText, st1) \<Rightarrow>
                  (case (if trim fullText = []
                         then Inl (Error (lit ''Extracted PDF text is empty''))
                         else chunkText fullText 500) of
                     Inl error \<Rightarrow>
                       (Inr (Failure 500 (lit ''Failed to process the document content.'')), st1)
                   | Inr chunks \<Rightarrow>
                       (case getEmbeddings svc chunks st1 of
                          (Inl error, st2) \<Rightarrow>
                            (Inr (Failure 500 (lit ''Failed to generate document embeddings.'')),
                             st2)
                        | (Inr chunkEmbeddings, st2) \<Rightarrow>
                            (case question_loop svc chunkEmbeddings chunks
                                    (elements questions) [] st2 of
                               (Inl e, st3) \<Rightarrow> (Inl e, st3)
                             | (Inr results, st3) \<Rightarrow> (Inr (Answers results), st3))))))"

text \<open>\<^verbatim>\<open>POST\<close> with its outer \<^verbatim>\<open>catch\<close>.\<close>

definition POST :: "'w services \<Rightarrow> js_error + json \<Rightarrow> 'w state \<Rightarrow> response \<times> 'w state" where
  "POST svc req st =
     (case handle svc req st of
        (Inl err, st') \<Rightarrow>
          (Failure 500 (if message err = [] then lit ''Internal server error'' else message err),
           st')
      | (Inr resp, st') \<Rightarrow> (resp, st'))"

section \<open>Reference notions for the statements\<close>

text \<open>
  The specification's partition of a sequence into consecutive batches of a fixed size, in
  order, the last batch possibly shorter. It is the yardstick the loop of
  \<^const>\<open>getEmbeddings\<close> is compared with.
\<close>

function batches :: "nat \<Rightarrow> 'a list \<Rightarrow> 'a list list" where
  "batches n xs = (if xs = [] \<or> n = 0 then [] else take n xs # batches n (drop n xs))"
  by pat_completeness auto
termination
  by (relation "measure (\<lambda>(n, xs). length xs)") auto

text \<open>
  The events of calling the service on each batch in turn, with a pause after every batch
  but the last.
\<close>

fun batch_events :: "jsstring list list \<Rightarrow> event list" where
  "batch_events [] = []"
| "batch_events [b] = [EmbeddingsCall b]"
| "batch_events (b # c # bs) = EmbeddingsCall b # Pause # batch_events (c # bs)"

text \<open>
  Services for the examples: the fetch returns a PDF response, the parser the text
  \<^verbatim>\<open>alpha beta\<close>, the embedding service a two-dimensional vector for each text, and the
  answer synthesis a fixed answer. They never fail and keep no state. Similarities are
  computed exactly.
\<close>

definition example_services :: "unit services" where
  "example_services =
     \<lparr> fetch = (\<lambda>documents w.
         (Inr \<lparr> res_ok = True, res_status = 200, res_text = Inr [],
                res_content_type = Some (lit ''application/pdf''), res_byteLength = Inr 1 \<rparr>, w)),
       pdf = (\<lambda>w. (Inr (lit ''alpha beta''), w)),
       embeddings_create = (\<lambda>batch w. (Inr (map (\<lambda>t. [1, real (length t)]) batch), w)),
       askOpenRouter = (\<lambda>question relevantChunks w. (Inr (lit ''answer''), w)),
       number_to_string = (\<lambda>n. lit ''0''),
       similarity = cosineSimilarity \<rparr>"

section \<open>Properties of the chunker\<close>

declare split_ws.simps [simp del]

lemma is_ws_sp: "is_ws 0x20"
  by (simp add: is_ws_def)

lemma split_ws_free:
  assumes "\<forall>c\<in>set w. \<not> is_ws c"
  shows "split_ws w = [w]"
proof -
  have d: "dropWhile (\<lambda>c. \<not> is_ws c) w = []"
    using assms by (induction w) auto
  have t: "takeWhile (\<lambda>c. \<not> is_ws c) w = w"
    using assms by (induction w) auto
  show ?thesis
    by (subst split_ws.simps) (simp only: d t list.case)
qed

lemma split_ws_not_Nil: "split_ws s \<noteq> []"
  by (subst split_ws.simps) (simp split: list.splits)

lemma split_ws_free_append:
  assumes "\<forall>c\<in>set w. \<not> is_ws c"
  shows "split_ws (w @ sp @ r) = w # split_ws (dropWhile is_ws r)"
proof -
  have d: "dropWhile (\<lambda>c. \<not> is_ws c) (w @ sp @ r) = sp @ r"
    using assms by (simp add: dropWhile_append sp_def is_ws_sp)
  have t: "takeWhile (\<lambda>c. \<not> is_ws c) (w @ sp @ r) = w"
    using assms by (simp add: takeWhile_append sp_def is_ws_sp)
  show ?thesis
    by (subst split_ws.simps) (simp only: d t, simp add: sp_def)
qed

lemma dropWhile_ws_free: "\<forall>c\<in>set w. \<not> is_ws c \<Longrightarrow> dropWhile is_ws (w @ r) = (if w = [] then dropWhile is_ws r else w @ r)"
  by (cases w) auto

lemma split_join:
  "ws \<noteq> [] \<Longrightarrow> \<forall>w\<in>set ws. \<forall>c\<in>set w. \<not> is_ws c \<Longrightarrow>
   \<forall>k. 0 < k \<and> Suc k < length ws \<longrightarrow> ws ! k \<noteq> [] \<Longrightarrow> split_ws (join sp ws) = ws"
proof (induction ws rule: induct_list012)
  case 1
  then show ?case by simp
next
  case (2 x)
  then show ?case by (simp add: split_ws_free)
next
  case More: (3 x y ys)
  have fx: "\<forall>c\<in>set x. \<not> is_ws c" and fy: "\<forall>c\<in>set y. \<not> is_ws c"
    using More.prems(2) by simp_all
  have inner: "\<forall>k. 0 < k \<and> Suc k < length (y # ys) \<longrightarrow> (y # ys) ! k \<noteq> []"
  proof (intro allI impI)
    fix k assume "0 < k \<and> Suc k < length (y # ys)"
    then have "0 < Suc k \<and> Suc (Suc k) < length (x # y # ys)" by simp
    then have "(x # y # ys) ! Suc k \<noteq> []" using More.prems(3) by blast
    then show "(y # ys) ! k \<noteq> []" by simp
  qed
  have ih: "split_ws (join sp (y # ys)) = y # ys"
    using More.IH(2) More.prems(2) inner by simp
  have dw: "dropWhile is_ws (join sp (y # ys)) = join sp (y # ys)"
  proof (cases ys)
    case Nil
    then show ?thesis using fy dropWhile_ws_free[of y "[]"] by simp
  next
    case (Cons z zs)
    have "(x # y # ys) ! 1 \<noteq> []"
      using More.prems(3)[rule_format, of 1] Cons by simp
    then have "y \<noteq> []" by simp
    then show ?thesis using fy Cons dropWhile_ws_free[of y] by simp
  qed
  show ?case
    using split_ws_free_append[OF fx, of "join sp (y # ys)"] ih dw by simp
qed

lemma split_ws_Nil:
  "dropWhile (\<lambda>c. \<not> is_ws c) s = [] \<Longrightarrow> split_ws s = [takeWhile (\<lambda>c. \<not> is_ws c) s]"
  by (subst split_ws.simps) (simp only: list.case)

lemma split_ws_Cons:
  "dropWhile (\<lambda>c. \<not> is_ws c) s = c # r \<Longrightarrow>
   split_ws s = takeWhile (\<lambda>c. \<not> is_ws c) s # split_ws (dropWhile is_ws r)"
  by (subst split_ws.simps) (simp only: list.case)

lemma split_ws_chars: "\<forall>w\<in>set (split_ws s). \<forall>c\<in>set w. \<not> is_ws c"
proof (induction s rule: split_ws.induct)
  case (1 s)
  show ?case
  proof (cases "dropWhile (\<lambda>c. \<not> is_ws c) s")
    case Nil
    show ?thesis
      unfolding split_ws_Nil[OF Nil] by (auto dest: set_takeWhileD)
  next
    case (Cons c r)
    show ?thesis
      unfolding split_ws_Cons[OF Cons] using 1[OF Cons] by (auto dest: set_takeWhileD)
  qed
qed

lemma split_ws_butlast:
  "s = [] \<or> \<not> is_ws (hd s) \<Longrightarrow> \<forall>w\<in>set (butlast (split_ws s)). w \<noteq> []"
proof (induction s rule: split_ws.induct)
  case (1 s)
  show ?case
  proof (cases "dropWhile (\<lambda>c. \<not> is_ws c) s")
    case Nil
    show ?thesis by (simp add: split_ws_Nil[OF Nil])
  next
    case (Cons c r)
    then have "s \<noteq> []" by auto
    with 1(2) have "\<not> is_ws (hd s)" by simp
    with \<open>s \<noteq> []\<close> have tw: "takeWhile (\<lambda>c. \<not> is_ws c) s \<noteq> []"
      by (cases s) auto
    have "dropWhile is_ws r = [] \<or> \<not> is_ws (hd (dropWhile is_ws r))"
      using hd_dropWhile[of is_ws r] by blast
    then have ih: "\<forall>w\<in>set (butlast (split_ws (dropWhile is_ws r))). w \<noteq> []"
      using 1(1)[OF Cons] by simp
    show ?thesis
      using tw ih by (simp add: split_ws_Cons[OF Cons] split_ws_not_Nil)
  qed
qed

lemma split_ws_inner:
  "\<forall>w\<in>set (butlast (tl (split_ws s))). w \<noteq> []"
proof (cases "dropWhile (\<lambda>c. \<not> is_ws c) s")
  case Nil
  show ?thesis by (simp add: split_ws_Nil[OF Nil])
next
  case (Cons c r)
  have "dropWhile is_ws r = [] \<or> \<not> is_ws (hd (dropWhile is_ws r))"
    using hd_dropWhile[of is_ws r] by blast
  then show ?thesis
    using split_ws_butlast[of "dropWhile is_ws r"] by (simp add: split_ws_Cons[OF Cons])
qed

lemma split_ws_inner_nth:
  assumes "0 < k" "Suc k < length (split_ws s)"
  shows "split_ws s ! k \<noteq> []"
proof -
  have "butlast (tl (split_ws s)) ! (k - 1) = split_ws s ! k"
    using assms by (simp add: nth_butlast nth_tl)
  moreover have "k - 1 < length (butlast (tl (split_ws s)))"
    using assms by simp
  ultimately have "split_ws s ! k \<in> set (butlast (tl (split_ws s)))"
    by (metis nth_mem)
  then show ?thesis using split_ws_inner by blast
qed

lemma slice_split_join:
  assumes free: "\<forall>w\<in>set words. \<forall>c\<in>set w. \<not> is_ws c"
    and inner: "\<forall>k. 0 < k \<and> Suc k < length words \<longrightarrow> words ! k \<noteq> []"
    and i: "i < length words" and m: "0 < m"
  shows "split_ws (join sp (slice words i (i + m))) = slice words i (i + m)"
proof (rule split_join)
  show "slice words i (i + m) \<noteq> []"
    using i m by (simp add: slice_def)
  show "\<forall>w\<in>set (slice words i (i + m)). \<forall>c\<in>set w. \<not> is_ws c"
    using free by (auto simp: slice_def dest!: in_set_takeD in_set_dropD)
  show "\<forall>k. 0 < k \<and> Suc k < length (slice words i (i + m)) \<longrightarrow> slice words i (i + m) ! k \<noteq> []"
  proof (intro allI impI)
    fix k assume k: "0 < k \<and> Suc k < length (slice words i (i + m))"
    then have "slice words i (i + m) ! k = words ! (i + k)"
      using i by (simp add: slice_def)
    moreover have "0 < i + k \<and> Suc (i + k) < length words"
      using k by (simp add: slice_def) linarith
    ultimately show "slice words i (i + m) ! k \<noteq> []"
      using inner by simp
  qed
qed

lemma slice_append_drop: "slice words i (i + m) @ drop (i + m) words = drop i words"
proof -
  have "drop (i + m) words = drop m (drop i words)"
    by (simp only: drop_drop add.commute[of m i])
  then show ?thesis
    by (simp only: slice_def add_diff_cancel_left' append_take_drop_id)
qed

declare chunk_loop.simps [simp del]

lemma chunk_loop_concat:
  assumes free: "\<forall>w\<in>set words. \<forall>c\<in>set w. \<not> is_ws c"
    and inner: "\<forall>k. 0 < k \<and> Suc k < length words \<longrightarrow> words ! k \<noteq> []"
    and m: "0 < m"
  shows "concat (map split_ws (chunk_loop words m i acc)) = concat (map split_ws acc) @ drop i words"
  using free inner m
proof (induction words m i acc rule: chunk_loop.induct)
  case (1 ws m i acc)
  show ?case
  proof (cases "i < length ws")
    case True
    have step: "chunk_loop ws m i acc = chunk_loop ws m (i + m) (acc @ [join sp (slice ws i (i + m))])"
      using True 1(4) by (subst chunk_loop.simps) simp
    have "concat (map split_ws (chunk_loop ws m (i + m) (acc @ [join sp (slice ws i (i + m))])))
        = concat (map split_ws (acc @ [join sp (slice ws i (i + m))])) @ drop (i + m) ws"
      using 1(1) True 1(2,3,4) by blast
    also have "\<dots> = concat (map split_ws acc) @ (slice ws i (i + m) @ drop (i + m) ws)"
      using slice_split_join[OF 1(2) 1(3) True 1(4)] by simp
    finally show ?thesis
      unfolding step slice_append_drop .
  next
    case False
    then show ?thesis by (subst chunk_loop.simps) simp
  qed
qed


lemma chunk_loop_step:
  "i < length words \<Longrightarrow> 0 < m \<Longrightarrow>
   chunk_loop words m i acc = chunk_loop words m (i + m) (acc @ [join sp (slice words i (i + m))])"
  by (subst chunk_loop.simps) simp

lemma chunk_loop_stop: "\<not> i < length words \<Longrightarrow> chunk_loop words m i acc = acc"
  by (subst chunk_loop.simps) simp

lemma length_slice: "length (slice words i (i + m)) = min m (length words - i)"
  by (simp add: slice_def)

lemma chunk_loop_full:
  assumes "\<forall>w\<in>set words. \<forall>c\<in>set w. \<not> is_ws c"
    and "\<forall>k. 0 < k \<and> Suc k < length words \<longrightarrow> words ! k \<noteq> []"
    and "0 < m"
    and "\<forall>c\<in>set acc. length (split_ws c) = m"
  shows "\<forall>k. Suc k < length (chunk_loop words m i acc) \<longrightarrow>
           length (split_ws (chunk_loop words m i acc ! k)) = m"
  using assms
proof (induction words m i acc rule: chunk_loop.induct)
  case (1 ws m i acc)
  show ?case
  proof (cases "i < length ws")
    case False
    then show ?thesis using 1(5) by (simp add: chunk_loop_stop)
  next
    case True
    let ?c = "join sp (slice ws i (i + m))"
    have step: "chunk_loop ws m i acc = chunk_loop ws m (i + m) (acc @ [?c])"
      using True 1(4) by (rule chunk_loop_step)
    have len: "length (split_ws ?c) = min m (length ws - i)"
      using slice_split_join[OF 1(2) 1(3) True 1(4)] by (simp add: length_slice)
    show ?thesis
    proof (cases "i + m < length ws")
      case True
      then have "\<forall>c\<in>set (acc @ [?c]). length (split_ws c) = m"
        using len 1(5) by simp
      then show ?thesis
        unfolding step using 1(1) \<open>i < length ws\<close> 1(2,3,4) by blast
    next
      case False
      then have "chunk_loop ws m i acc = acc @ [?c]"
        unfolding step by (simp add: chunk_loop_stop)
      then show ?thesis using 1(5) by (simp add: nth_append)
    qed
  qed
qed

lemma chunk_loop_bounds:
  assumes "\<forall>w\<in>set words. \<forall>c\<in>set w. \<not> is_ws c"
    and "\<forall>k. 0 < k \<and> Suc k < length words \<longrightarrow> words ! k \<noteq> []"
    and "0 < m"
    and "\<forall>c\<in>set acc. 1 \<le> length (split_ws c) \<and> length (split_ws c) \<le> m"
  shows "\<forall>c\<in>set (chunk_loop words m i acc). 1 \<le> length (split_ws c) \<and> length (split_ws c) \<le> m"
  using assms
proof (induction words m i acc rule: chunk_loop.induct)
  case (1 ws m i acc)
  show ?case
  proof (cases "i < length ws")
    case False
    then show ?thesis using 1(5) by (simp add: chunk_loop_stop)
  next
    case True
    let ?c = "join sp (slice ws i (i + m))"
    have step: "chunk_loop ws m i acc = chunk_loop ws m (i + m) (acc @ [?c])"
      using True 1(4) by (rule chunk_loop_step)
    have "length (split_ws ?c) = min m (length ws - i)"
      using slice_split_join[OF 1(2) 1(3) True 1(4)] by (simp add: length_slice)
    then have "\<forall>c\<in>set (acc @ [?c]). 1 \<le> length (split_ws c) \<and> length (split_ws c) \<le> m"
      using 1(5) True 1(4) by auto
    then show ?thesis
      unfolding step using 1(1) True 1(2,3,4) by blast
  qed
qed

lemma join_snoc: "join s (acc @ [x]) = (if acc = [] then x else join s acc @ s @ x)"
  by (induction acc rule: induct_list012) auto

lemma join_snoc2:
  "join s (acc @ [a, b]) = (if acc = [] then a @ s @ b else join s acc @ s @ a @ s @ b)"
  by (induction acc rule: induct_list012) auto

lemma join_append:
  "xs \<noteq> [] \<Longrightarrow> ys \<noteq> [] \<Longrightarrow> join s (xs @ ys) = join s xs @ s @ join s ys"
  by (induction xs rule: induct_list012) (auto simp: neq_Nil_conv)

lemma chunk_loop_join:
  assumes "0 < m"
  shows "join sp (chunk_loop words m i acc) =
           (if i < length words then join sp (acc @ [join sp (drop i words)]) else join sp acc)"
  using assms
proof (induction words m i acc rule: chunk_loop.induct)
  case (1 ws m i acc)
  show ?case
  proof (cases "i < length ws")
    case False
    then show ?thesis by (simp add: chunk_loop_stop)
  next
    case True
    let ?s = "slice ws i (i + m)"
    have step: "chunk_loop ws m i acc = chunk_loop ws m (i + m) (acc @ [join sp ?s])"
      using True 1(2) by (rule chunk_loop_step)
    have ih: "join sp (chunk_loop ws m (i + m) (acc @ [join sp ?s])) =
       (if i + m < length ws then join sp ((acc @ [join sp ?s]) @ [join sp (drop (i + m) ws)])
        else join sp (acc @ [join sp ?s]))"
      using 1(1) True 1(2) by blast
    have dr: "drop i ws = ?s @ drop (i + m) ws"
      by (rule slice_append_drop[symmetric])
    show ?thesis
    proof (cases "i + m < length ws")
      case False
      then have "drop i ws = ?s" using dr by simp
      then show ?thesis unfolding step ih using False True by simp
    next
      case more: True
      have "?s \<noteq> []" using True 1(2) by (simp add: slice_def)
      moreover have "drop (i + m) ws \<noteq> []" using more by simp
      ultimately have "join sp (drop i ws) = join sp ?s @ sp @ join sp (drop (i + m) ws)"
        using dr join_append by metis
      then show ?thesis unfolding step ih using more True by (simp add: join_snoc join_snoc2)
    qed
  qed
qed

text \<open>
  Claim C2. For every non-empty text and every \<open>maxWords > 0\<close>, \<^const>\<open>chunkText\<close> returns
  chunks that reproduce the word sequence \<open>split_ws text\<close> exactly: re-splitting the chunks
  one by one and concatenating the words gives the words of the text, and so does
  re-splitting the chunks joined by single spaces. Every chunk but the last has exactly
  \<open>maxWords\<close> words, and every chunk has between one and \<open>maxWords\<close> words.
\<close>

theorem chunkText_partitions_words:
  assumes "text \<noteq> []" and "0 < maxWords"
  shows "\<exists>chunks. chunkText text maxWords = Inr chunks
     \<and> concat (map split_ws chunks) = split_ws text
     \<and> split_ws (join sp chunks) = split_ws text
     \<and> (\<forall>k. Suc k < length chunks \<longrightarrow> length (split_ws (chunks ! k)) = nat maxWords)
     \<and> (\<forall>c\<in>set chunks. 1 \<le> length (split_ws c) \<and> length (split_ws c) \<le> nat maxWords)"
proof -
  let ?words = "split_ws text"
  let ?m = "nat maxWords"
  let ?chunks = "chunk_loop ?words ?m 0 []"
  have m: "0 < ?m" using assms(2) by simp
  have free: "\<forall>w\<in>set ?words. \<forall>c\<in>set w. \<not> is_ws c"
    by (rule split_ws_chars)
  have inner: "\<forall>k. 0 < k \<and> Suc k < length ?words \<longrightarrow> ?words ! k \<noteq> []"
    using split_ws_inner_nth by blast
  have ne: "?words \<noteq> []" by (rule split_ws_not_Nil)
  have r: "chunkText text maxWords = Inr ?chunks"
    using assms by (simp add: chunkText_def)
  have c1: "concat (map split_ws ?chunks) = ?words"
    using chunk_loop_concat[OF free inner m, of 0 "[]"] by simp
  have "join sp ?chunks = join sp ?words"
    using chunk_loop_join[OF m, of ?words 0 "[]"] ne by simp
  then have c2: "split_ws (join sp ?chunks) = ?words"
    using split_join[OF ne free inner] by simp
  have c3: "\<forall>k. Suc k < length ?chunks \<longrightarrow> length (split_ws (?chunks ! k)) = ?m"
    using chunk_loop_full[OF free inner m, of "[]" 0] by simp
  have c4: "\<forall>c\<in>set ?chunks. 1 \<le> length (split_ws c) \<and> length (split_ws c) \<le> ?m"
    using chunk_loop_bounds[OF free inner m, of "[]" 0] by simp
  show ?thesis using r c1 c2 c3 c4 by blast
qed

theorem chunkText_partitions_words_witness:
  "lit ''one two three four five'' \<noteq> [] \<and> (0::int) < 2
   \<and> chunkText (lit ''one two three four five'') 2
       = Inr [lit ''one two'', lit ''three four'', lit ''five'']
   \<and> concat (map split_ws [lit ''one two'', lit ''three four'', lit ''five''])
       = split_ws (lit ''one two three four five'')
   \<and> split_ws (join sp [lit ''one two'', lit ''three four'', lit ''five''])
       = split_ws (lit ''one two three four five'')"
proof -
  have t: "lit ''one two three four five'' \<noteq> []" by (simp add: lit_def)
  have e: "chunkText (lit ''one two three four five'') 2
           = Inr [lit ''one two'', lit ''three four'', lit ''five'']"
    by (simp add: chunkText_def lit_def is_ws_def slice_def sp_def
          split_ws.simps chunk_loop.simps)
  show ?thesis
    using chunkText_partitions_words [OF t, of 2] t unfolding e by simp
qed

lemma split_ws_all_ws:
  assumes "text \<noteq> []" and "\<forall>c\<in>set text. is_ws c"
  shows "split_ws text = [[], []]"
proof -
  obtain c r where cr: "text = c # r" using assms(1) by (cases "text") auto
  have d: "dropWhile (\<lambda>c. \<not> is_ws c) text = c # r"
    using cr assms(2) by simp
  have t: "takeWhile (\<lambda>c. \<not> is_ws c) text = []"
    using cr assms(2) by simp
  have e: "dropWhile is_ws r = []"
    using cr assms(2) by simp
  have "split_ws [] = [[]]"
    by (simp add: split_ws_Nil)
  then show ?thesis
    unfolding split_ws_Cons[OF d] t e by simp
qed

text \<open>
  Claim C9. For a non-empty text of white space only and \<open>maxWords > 0\<close>,
  \<^const>\<open>chunkText\<close> does not fail: the split gives two empty tokens, and the result is the
  non-empty list of their joins (two empty chunks when \<open>maxWords = 1\<close>, and otherwise the
  one chunk that joins both).
\<close>

theorem chunkText_whitespace_only:
  assumes "text \<noteq> []" and "\<forall>c\<in>set text. is_ws c" and "0 < maxWords"
  shows "split_ws text = [[], []] \<and>
         chunkText text maxWords =
           Inr (if maxWords = 1 then [join sp [[]], join sp [[]]] else [join sp [[], []]])"
proof -
  have w: "split_ws text = [[], []]"
    using assms(1,2) by (rule split_ws_all_ws)
  have r: "chunkText text maxWords = Inr (chunk_loop [[], []] (nat maxWords) 0 [])"
    using assms(1,3) by (simp add: chunkText_def w)
  show ?thesis
  proof (cases "maxWords = 1")
    case True
    have "chunk_loop [[], []] 1 0 [] = [[], []]"
      by (simp add: chunk_loop.simps slice_def)
    then show ?thesis using w r True by simp
  next
    case False
    then have big: "2 \<le> nat maxWords" using assms(3) by simp
    have "chunk_loop [[], []] (nat maxWords) 0 [] =
          chunk_loop [[], []] (nat maxWords) (0 + nat maxWords) ([] @ [join sp (slice [[], []] 0 (0 + nat maxWords))])"
      using big by (intro chunk_loop_step) simp_all
    also have "\<dots> = [join sp (slice [[], []] 0 (0 + nat maxWords))]"
      using big by (simp add: chunk_loop_stop)
    also have "slice [[], []] 0 (0 + nat maxWords) = [[], []]"
      using big by (simp add: slice_def)
    finally show ?thesis using w r False by simp
  qed
qed

theorem chunkText_whitespace_only_witness:
  "[0x20, 0x9] \<noteq> ([] :: jsstring) \<and> is_ws 0x20 \<and> is_ws 0x9 \<and> (0::int) < 3
   \<and> split_ws [0x20, 0x9] = [[], []] \<and> chunkText [0x20, 0x9] 3 = Inr [[0x20]]"
  using chunkText_whitespace_only [of "[0x20, 0x9]" 3]
  by (simp add: is_ws_def sp_def)

section \<open>Properties of the vector math\<close>

lemma reduce_sum:
  "reduce (\<lambda>sum val i. sum + g val i) acc i xs = acc + (\<Sum>k<length xs. g (xs ! k) (i + k))"
proof (induction xs arbitrary: acc i)
  case Nil
  then show ?case by simp
next
  case (Cons x xs)
  show ?case
    by (simp add: Cons.IH sum.lessThan_Suc_shift add.assoc del: sum.lessThan_Suc)
qed

lemma dot_sum:
  "reduce (\<lambda>sum val i. sum + val * b ! i) 0 0 a = (\<Sum>k<length a. a ! k * b ! k)"
  using reduce_sum[of "\<lambda>val i. val * b ! i" 0 0 a] by simp

lemma sq_sum:
  "reduce (\<lambda>sum val i. sum + val * val) 0 0 a = (\<Sum>k<length a. a ! k * a ! k)"
  using reduce_sum[of "\<lambda>val i. val * val" 0 0 a] by simp

lemma sq_sum_nonneg: "0 \<le> (\<Sum>k<length a. a ! k * a ! k :: real)"
  by (rule sum_nonneg) simp

lemma sq_sum_pos:
  assumes "\<exists>x\<in>set a. x \<noteq> (0::real)"
  shows "0 < (\<Sum>k<length a. a ! k * a ! k)"
proof -
  obtain j where j: "j < length a" "a ! j \<noteq> 0"
    using assms by (auto simp: in_set_conv_nth)
  have "0 < a ! j * a ! j"
    using j(2) zero_less_power2[of "a ! j"] by (simp add: power2_eq_square)
  also have "\<dots> \<le> (\<Sum>k<length a. a ! k * a ! k)"
    using j(1) by (intro member_le_sum) simp_all
  finally show ?thesis .
qed

lemma cosineSimilarity_value:
  assumes "a \<noteq> []" "length a = length b" "\<exists>x\<in>set a. x \<noteq> 0" "\<exists>x\<in>set b. x \<noteq> 0"
  shows "cosineSimilarity a b =
    Inr ((\<Sum>k<length a. a ! k * b ! k)
         / (sqrt (\<Sum>k<length a. a ! k * a ! k) * sqrt (\<Sum>k<length b. b ! k * b ! k)))"
proof -
  have "b \<noteq> []" using assms(1,2) by auto
  moreover have "sqrt (\<Sum>k<length a. a ! k * a ! k) \<noteq> 0"
    using sq_sum_pos[OF assms(3)] by simp
  moreover have "sqrt (\<Sum>k<length b. b ! k * b ! k) \<noteq> 0"
    using sq_sum_pos[OF assms(4)] by simp
  ultimately show ?thesis
    using assms(1,2) by (simp add: cosineSimilarity_def dot_sum sq_sum Let_def)
qed

text \<open>
  Claim C7. Over the reals, \<^const>\<open>cosineSimilarity\<close> of a vector with a non-zero component
  against itself is 1, and for two non-empty vectors of equal length, each with a non-zero
  component, \<^const>\<open>cosineSimilarity\<close> gives the same value in both argument orders.
\<close>

theorem cosineSimilarity_self_and_symmetric:
  "((\<exists>x\<in>set v. x \<noteq> 0) \<longrightarrow> cosineSimilarity v v = Inr 1)
   \<and> (a \<noteq> [] \<and> length a = length b \<and> (\<exists>x\<in>set a. x \<noteq> 0) \<and> (\<exists>x\<in>set b. x \<noteq> 0)
        \<longrightarrow> (\<exists>s. cosineSimilarity a b = Inr s \<and> cosineSimilarity b a = Inr s))"
proof (intro conjI impI)
  assume nz: "\<exists>x\<in>set v. x \<noteq> 0"
  then have ne: "v \<noteq> []" by auto
  let ?S = "\<Sum>k<length v. v ! k * v ! k"
  have pos: "0 < ?S" using sq_sum_pos[OF nz] .
  then have "sqrt ?S * sqrt ?S = ?S" by simp
  then show "cosineSimilarity v v = Inr 1"
    using cosineSimilarity_value[OF ne refl nz nz] pos by simp
next
  assume h: "a \<noteq> [] \<and> length a = length b \<and> (\<exists>x\<in>set a. x \<noteq> 0) \<and> (\<exists>x\<in>set b. x \<noteq> 0)"
  then have b: "b \<noteq> []" by auto
  have 1: "cosineSimilarity a b =
    Inr ((\<Sum>k<length a. a ! k * b ! k)
         / (sqrt (\<Sum>k<length a. a ! k * a ! k) * sqrt (\<Sum>k<length b. b ! k * b ! k)))"
    using h by (intro cosineSimilarity_value) simp_all
  have 2: "cosineSimilarity b a =
    Inr ((\<Sum>k<length b. b ! k * a ! k)
         / (sqrt (\<Sum>k<length b. b ! k * b ! k) * sqrt (\<Sum>k<length a. a ! k * a ! k)))"
    using h b by (intro cosineSimilarity_value) simp_all
  have "(\<Sum>k<length b. b ! k * a ! k) = (\<Sum>k<length a. a ! k * b ! k)"
    using h by (simp add: mult.commute)
  then show "\<exists>s. cosineSimilarity a b = Inr s \<and> cosineSimilarity b a = Inr s"
    unfolding 1 2 by (simp add: mult.commute)
qed

theorem cosineSimilarity_self_and_symmetric_witness:
  "cosineSimilarity [3, 4] [3, 4] = Inr 1
   \<and> (\<exists>s. cosineSimilarity [1, 2] [2, 1] = Inr s \<and> cosineSimilarity [2, 1] [1, 2] = Inr s)"
  using cosineSimilarity_self_and_symmetric [of "[3, 4]" "[1, 2]" "[2, 1]"] by simp

section \<open>Properties of the relevance ranker\<close>

lemma insort_key_lex:
  assumes "sorted_wrt (\<lambda>p p'. f p < f p' \<or> (f p = f p' \<and> g p < g p')) ys"
    and "\<forall>y\<in>set ys. g x < g y"
  shows "sorted_wrt (\<lambda>p p'. f p < f p' \<or> (f p = f p' \<and> g p < g p')) (insort_key f x ys)"
  using assms
proof (induction ys)
  case Nil
  then show ?case by simp
next
  case (Cons y ys)
  show ?case
  proof (cases "f x \<le> f y")
    case True
    have "\<forall>z\<in>set (y # ys). f x < f z \<or> (f x = f z \<and> g x < g z)"
    proof
      fix z assume z: "z \<in> set (y # ys)"
      have "f y \<le> f z" using z Cons.prems(1) by auto
      then have "f x \<le> f z" using True by simp
      moreover have "g x < g z" using z Cons.prems(2) by blast
      ultimately show "f x < f z \<or> (f x = f z \<and> g x < g z)" by auto
    qed
    then show ?thesis using True Cons.prems(1) by simp
  next
    case False
    have "sorted_wrt (\<lambda>p p'. f p < f p' \<or> (f p = f p' \<and> g p < g p')) (insort_key f x ys)"
      using Cons.IH Cons.prems by simp
    then show ?thesis using False Cons.prems(1) by (auto simp: set_insort_key)
  qed
qed

lemma sort_key_lex:
  assumes "sorted_wrt (\<lambda>p p'. g p < g p') xs"
  shows "sorted_wrt (\<lambda>p p'. f p < f p' \<or> (f p = f p' \<and> g p < g p')) (sort_key f xs)"
  using assms
proof (induction xs)
  case Nil
  then show ?case by simp
next
  case (Cons x xs)
  have "\<forall>y\<in>set (sort_key f xs). g x < g y"
    using Cons.prems by simp
  moreover have "sorted_wrt (\<lambda>p p'. f p < f p' \<or> (f p = f p' \<and> g p < g p')) (sort_key f xs)"
    using Cons by simp
  ultimately show ?case
    by (simp add: sort_key_simps insort_key_lex)
qed

lemma similarities_Inr:
  assumes "\<forall>e\<in>set E. \<exists>s. sim q e = Inr s"
  shows "\<exists>sims. similarities sim q i E = Inr sims \<and> map fst sims = [i..<i + length E]
           \<and> (\<forall>k<length E. sim q (E ! k) = Inr (snd (sims ! k)))"
  using assms
proof (induction E arbitrary: i)
  case Nil
  then show ?case by simp
next
  case (Cons e E)
  obtain s where s: "sim q e = Inr s"
    using Cons.prems by auto
  obtain sims where sims: "similarities sim q (Suc i) E = Inr sims"
      "map fst sims = [Suc i..<Suc i + length E]"
      "\<forall>k<length E. sim q (E ! k) = Inr (snd (sims ! k))"
    using Cons.IH[of "Suc i"] Cons.prems by auto
  have "similarities sim q i (e # E) = Inr ((i, s) # sims)"
    using s sims(1) by simp
  moreover have "[i..<i + length (e # E)] = i # [Suc i..<Suc i + length E]"
    by (subst upt_rec) simp
  then have "map fst ((i, s) # sims) = [i..<i + length (e # E)]"
    using sims(2) by (simp del: upt_Suc)
  moreover have "\<forall>k<length (e # E). sim q ((e # E) ! k) = Inr (snd (((i, s) # sims) ! k))"
    using s sims(3) by (auto simp: nth_Cons split: nat.splits)
  ultimately show ?case by blast
qed

lemma ranked_properties:
  fixes sims :: "(nat \<times> real) list"
  assumes fst: "map fst sims = [0..<n]"
  defines "ranked \<equiv> sort_key (\<lambda>(index, score). - score) sims"
  shows "length ranked = n" and "set ranked = set sims" and "distinct (map fst ranked)"
    and "sorted_wrt (\<lambda>p p'. snd p' < snd p \<or> (snd p' = snd p \<and> fst p < fst p')) ranked"
proof -
  have len: "length sims = n"
    using fst by (metis length_map length_upt diff_zero)
  show "length ranked = n" using len by (simp add: ranked_def)
  show "set ranked = set sims" by (simp add: ranked_def)
  have d: "distinct (map fst sims)" using fst by simp
  then have "distinct sims \<and> inj_on fst (set sims)"
    by (simp add: distinct_map)
  then have "distinct ranked \<and> inj_on fst (set ranked)"
    by (simp add: ranked_def)
  then show "distinct (map fst ranked)"
    by (simp add: distinct_map)
  have "sorted_wrt (<) (map fst sims)"
    using fst by simp
  then have "sorted_wrt (\<lambda>p p'. fst p < fst p') sims"
    by (simp add: sorted_wrt_map)
  then have "sorted_wrt (\<lambda>p p'. (case p of (index, score) \<Rightarrow> - score) < (case p' of (index, score) \<Rightarrow> - score)
       \<or> ((case p of (index, score) \<Rightarrow> - score) = (case p' of (index, score) \<Rightarrow> - score) \<and> fst p < fst p')) ranked"
    unfolding ranked_def by (rule sort_key_lex)
  then show "sorted_wrt (\<lambda>p p'. snd p' < snd p \<or> (snd p' = snd p \<and> fst p < fst p')) ranked"
    by (rule sorted_wrt_mono_rel[rotated]) (auto simp: case_prod_beta)
qed

lemma findRelevantChunks_ranked:
  assumes q: "q \<noteq> []" and E: "E \<noteq> []" and len: "length E = length C"
    and ok: "\<forall>e\<in>set E. \<exists>s. sim q e = Inr s"
  shows "\<exists>sims. map fst sims = [0..<length C]
           \<and> (\<forall>k<length C. sim q (E ! k) = Inr (snd (sims ! k)))
           \<and> (\<forall>topK. findRelevantChunks sim q E C topK =
                 Inr (map (\<lambda>(index, score). C ! index)
                   (take (nat (if topK \<le> 0 \<or> topK > int (length C)
                               then min 3 (int (length C)) else topK))
                      (sort_key (\<lambda>(index, score). - score) sims))))"
proof -
  obtain sims where sims: "similarities sim q 0 E = Inr sims" "map fst sims = [0..<0 + length E]"
      "\<forall>k<length E. sim q (E ! k) = Inr (snd (sims ! k))"
    using similarities_Inr[where sim = sim and q = q, OF ok, of 0] by blast
  have C: "C \<noteq> []" using E len by auto
  have "\<forall>topK. findRelevantChunks sim q E C topK =
          Inr (map (\<lambda>(index, score). C ! index)
            (take (nat (if topK \<le> 0 \<or> topK > int (length C)
                        then min 3 (int (length C)) else topK))
               (sort_key (\<lambda>(index, score). - score) sims)))"
    using q E C len sims(1) by (simp add: findRelevantChunks_def slice_def Let_def)
  then show ?thesis using sims(2,3) len by auto
qed

text \<open>
  Under exact arithmetic every similarity is computed when the vectors have the query's
  dimension and a non-zero component each.
\<close>

lemma valid_cosine:
  assumes "q \<noteq> []" "\<exists>x\<in>set q. x \<noteq> 0"
    and "\<forall>e\<in>set E. length e = length q \<and> (\<exists>x\<in>set e. x \<noteq> 0)"
  shows "\<forall>e\<in>set E. \<exists>s. cosineSimilarity q e = Inr s"
proof
  fix e assume "e \<in> set E"
  then have "length q = length e" "\<exists>x\<in>set e. x \<noteq> 0" using assms(3) by auto
  then show "\<exists>s. cosineSimilarity q e = Inr s"
    using cosineSimilarity_value[OF assms(1) _ assms(2), of e] by simp
qed

lemma findRelevantChunks_take_ranking:
  assumes "q \<noteq> []" and "E \<noteq> []" and "length E = length C"
    and "\<forall>e\<in>set E. \<exists>s. sim q e = Inr s"
  shows "\<exists>ranking. findRelevantChunks sim q E C (int (length C)) = Inr ranking
           \<and> length ranking = length C
           \<and> findRelevantChunks sim q E C topK =
               Inr (take (if topK \<le> 0 \<or> topK > int (length C) then min 3 (length C)
                          else nat topK) ranking)"
proof -
  obtain sims :: "(nat \<times> real) list" where sims: "map fst sims = [0..<length C]"
      and frc: "\<forall>topK. findRelevantChunks sim q E C topK =
                 Inr (map (\<lambda>(index, score). C ! index)
                   (take (nat (if topK \<le> 0 \<or> topK > int (length C)
                               then min 3 (int (length C)) else topK))
                      (sort_key (\<lambda>(index, score). - score) sims)))"
    using findRelevantChunks_ranked[where sim = sim and q = q, OF assms] by blast
  let ?ranked = "sort_key (\<lambda>(index, score). - score) sims"
  let ?full = "map (\<lambda>(index, score). C ! index) ?ranked"
  have C: "C \<noteq> []" using assms(2,3) by auto
  have l: "length ?ranked = length C"
    using ranked_properties(1)[OF sims] .
  have 1: "findRelevantChunks sim q E C (int (length C)) = Inr ?full"
    using frc[rule_format, of "int (length C)"] C l by simp
  have m: "nat (min 3 (int (length C))) = min 3 (length C)"
    by (simp add: min_def)
  have 2: "findRelevantChunks sim q E C topK =
      Inr (take (if topK \<le> 0 \<or> topK > int (length C) then min 3 (length C) else nat topK) ?full)"
    using frc[rule_format, of topK] by (simp add: take_map m)
  show ?thesis using 1 2 l by auto
qed

lemma findRelevantChunks_out_of_range:
  assumes "topK \<le> 0 \<or> topK > int (length C)"
  shows "findRelevantChunks sim q E C topK = findRelevantChunks sim q E C (min 3 (int (length C)))"
proof (cases "C = []")
  case True
  then show ?thesis by (simp add: findRelevantChunks_def)
next
  case False
  then have "0 < length C" by simp
  then have "\<not> (min 3 (int (length C)) \<le> 0 \<or> min 3 (int (length C)) > int (length C))"
    by (simp add: min_def)
  then show ?thesis using assms by (simp add: findRelevantChunks_def Let_def)
qed

text \<open>
  Claim C5. The parameter \<open>sim\<close> is \<^verbatim>\<open>cosineSimilarity\<close> as the machine evaluates it. When
  \<open>topK \<le> 0\<close> or \<open>topK > length docChunks\<close>, the call is the call with
  \<open>topK = min 3 (length docChunks)\<close>, on every input: the reset raises no error of its own.
  When the query is non-empty, there are as many vectors as chunks and at least one, and
  the similarity of the query and every vector is computed, the call does not fail for any
  \<open>topK\<close>: with \<open>ranking\<close> the full ranked list of chunks (the result for
  \<open>topK = length docChunks\<close>), the result is its first \<open>min 3 (length docChunks)\<close> entries
  when \<open>topK\<close> is out of range, and its first \<open>topK\<close> entries when
  \<open>0 < topK \<le> length docChunks\<close>.
\<close>

theorem findRelevantChunks_topK_clamped:
  "(topK \<le> 0 \<or> topK > int (length C) \<longrightarrow>
      findRelevantChunks sim q E C topK = findRelevantChunks sim q E C (min 3 (int (length C))))
   \<and> (q \<noteq> [] \<and> E \<noteq> [] \<and> length E = length C
        \<and> (\<forall>e\<in>set E. \<exists>s. sim q e = Inr s) \<longrightarrow>
      (\<exists>ranking. findRelevantChunks sim q E C (int (length C)) = Inr ranking
         \<and> length ranking = length C
         \<and> findRelevantChunks sim q E C topK =
             Inr (take (if topK \<le> 0 \<or> topK > int (length C) then min 3 (length C)
                        else nat topK) ranking)))"
proof (intro conjI impI)
  assume "topK \<le> 0 \<or> topK > int (length C)"
  then show "findRelevantChunks sim q E C topK
      = findRelevantChunks sim q E C (min 3 (int (length C)))"
    by (rule findRelevantChunks_out_of_range)
next
  assume h: "q \<noteq> [] \<and> E \<noteq> [] \<and> length E = length C
        \<and> (\<forall>e\<in>set E. \<exists>s. sim q e = Inr s)"
  show "\<exists>ranking. findRelevantChunks sim q E C (int (length C)) = Inr ranking
         \<and> length ranking = length C
         \<and> findRelevantChunks sim q E C topK =
             Inr (take (if topK \<le> 0 \<or> topK > int (length C) then min 3 (length C)
                        else nat topK) ranking)"
    using h findRelevantChunks_take_ranking[where sim = sim and q = q and E = E and C = C]
    by blast
qed

theorem findRelevantChunks_topK_clamped_witness:
  "findRelevantChunks cosineSimilarity [1, 0] [[1, 0], [0, 1], [3, 4]]
       [lit ''A'', lit ''B'', lit ''C''] 7
     = findRelevantChunks cosineSimilarity [1, 0] [[1, 0], [0, 1], [3, 4]]
         [lit ''A'', lit ''B'', lit ''C''] 3
   \<and> (\<exists>ranking.
         findRelevantChunks cosineSimilarity [1, 0] [[1, 0], [0, 1], [3, 4]]
             [lit ''A'', lit ''B'', lit ''C''] 3
           = Inr ranking
       \<and> length ranking = 3
       \<and> findRelevantChunks cosineSimilarity [1, 0] [[1, 0], [0, 1], [3, 4]]
             [lit ''A'', lit ''B'', lit ''C''] 7
           = Inr (take 3 ranking))"
proof -
  let ?C = "[lit ''A'', lit ''B'', lit ''C'']"
  let ?E = "[[1, 0], [0, 1], [3, 4 :: real]]"
  have v: "\<forall>e\<in>set ?E. \<exists>s. cosineSimilarity [1, 0] e = Inr s"
    by (rule valid_cosine) simp_all
  have h: "[1, 0] \<noteq> ([] :: real list) \<and> ?E \<noteq> [] \<and> length ?E = length ?C
      \<and> (\<forall>e\<in>set ?E. \<exists>s. cosineSimilarity [1, 0] e = Inr s)"
    using v by simp
  have o: "(7::int) \<le> 0 \<or> 7 > int (length ?C)" by simp
  have l: "length ?C = 3" by simp
  have m: "min 3 (int 3) = (3::int)" by simp
  have k: "(if (7::int) \<le> 0 \<or> 7 > (3::int) then min 3 (3::nat) else nat 7) = 3" by simp
  note t = findRelevantChunks_topK_clamped [of 7 ?C cosineSimilarity "[1, 0]" ?E]
  have 1: "findRelevantChunks cosineSimilarity [1, 0] ?E ?C 7
      = findRelevantChunks cosineSimilarity [1, 0] ?E ?C 3"
    using t [THEN conjunct1, rule_format, OF o] unfolding l m .
  have 2: "\<exists>ranking. findRelevantChunks cosineSimilarity [1, 0] ?E ?C 3 = Inr ranking
       \<and> length ranking = 3
       \<and> findRelevantChunks cosineSimilarity [1, 0] ?E ?C 7 = Inr (take 3 ranking)"
    using t [THEN conjunct2, rule_format, OF h] unfolding l of_nat_numeral k .
  show ?thesis
    by (rule conjI[OF 1 2])
qed





text \<open>
  Under exact arithmetic: three chunks, the third between the other two in similarity,
  \<open>topK = 2\<close>.
\<close>

lemma findRelevantChunks_example:
  "findRelevantChunks cosineSimilarity [1, 0] [[1, 0], [0, 1], [3, 4]]
       [lit ''A'', lit ''B'', lit ''C''] 2
     = Inr [lit ''A'', lit ''C'']"
proof -
  have "sqrt 25 = 5" using real_sqrt_abs[of 5] by simp
  then show ?thesis
    by (simp add: findRelevantChunks_def cosineSimilarity_def slice_def)
qed

text \<open>
  The scenario of the specification, under exact arithmetic: query \<open>[1, 0]\<close>, vectors
  \<open>[1, 0]\<close>, \<open>[0, 1]\<close> and \<open>[0.9, 0.1]\<close>, \<open>topK = 2\<close>.
\<close>

lemma findRelevantChunks_scenario:
  "findRelevantChunks cosineSimilarity [1, 0] [[1, 0], [0, 1], [9 / 10, 1 / 10]]
       [lit ''A'', lit ''B'', lit ''C''] 2
     = Inr [lit ''A'', lit ''C'']"
proof -
  let ?s = "9 / (10 * sqrt (41 / 50)) :: real"
  have r: "(9 / 10) * (9 / 10) + (1 / 10) * (1 / 10) = (41 / 50 :: real)" by simp
  have p: "0 < sqrt (41 / 50 :: real)" by simp
  have "(9 / 10 :: real) \<le> sqrt (41 / 50)"
    by (rule real_le_rsqrt) (simp add: power2_eq_square)
  then have le: "?s \<le> 1" using p by (simp add: field_simps)
  have pos: "\<not> ?s \<le> 0" using p by (simp add: field_simps)
  have c0: "cosineSimilarity [1, 0] [1, 0] = Inr 1"
    by (simp add: cosineSimilarity_def)
  have c1: "cosineSimilarity [1, 0] [0, 1] = Inr 0"
    by (simp add: cosineSimilarity_def)
  have c2: "cosineSimilarity [1, 0] [9 / 10, 1 / 10] = Inr ?s"
    using p by (simp add: cosineSimilarity_def r)
  show ?thesis
    using le pos by (simp add: findRelevantChunks_def c0 c1 c2 slice_def)
qed

section \<open>Properties of the embedding client\<close>

declare embed_loop.simps [simp del]
declare batches.simps [simp del]

lemma batches_Nil: "batches n [] = []"
  by (subst batches.simps) simp

lemma batches_Cons:
  "xs \<noteq> [] \<Longrightarrow> 0 < n \<Longrightarrow> batches n xs = take n xs # batches n (drop n xs)"
  by (subst batches.simps) simp

lemma batches_eq_Nil: "0 < n \<Longrightarrow> batches n xs = [] \<longleftrightarrow> xs = []"
  by (subst batches.simps) simp

lemma concat_batches: "0 < n \<Longrightarrow> concat (batches n xs) = xs"
proof (induction n xs rule: batches.induct)
  case (1 n xs)
  show ?case
  proof (cases "xs = []")
    case True
    then show ?thesis by (simp add: batches_Nil)
  next
    case False
    then show ?thesis using 1 by (simp add: batches_Cons)
  qed
qed

lemma batches_sizes:
  "0 < n \<Longrightarrow> \<forall>b\<in>set (batches n xs). b \<noteq> [] \<and> length b \<le> n"
proof (induction n xs rule: batches.induct)
  case (1 n xs)
  show ?case
  proof (cases "xs = []")
    case True
    then show ?thesis by (simp add: batches_Nil)
  next
    case False
    have ih: "\<forall>b\<in>set (batches n (drop n xs)). b \<noteq> [] \<and> length b \<le> n"
      using 1 False by blast
    have "take n xs \<noteq> [] \<and> length (take n xs) \<le> n"
      using False 1(2) by simp
    then show ?thesis
      unfolding batches_Cons[OF False 1(2)] using ih by auto
  qed
qed

lemma batches_full:
  "0 < n \<Longrightarrow> \<forall>k. Suc k < length (batches n xs) \<longrightarrow> length (batches n xs ! k) = n"
proof (induction n xs rule: batches.induct)
  case (1 n xs)
  show ?case
  proof (cases "xs = []")
    case True
    then show ?thesis by (simp add: batches_Nil)
  next
    case False
    have ih: "\<forall>k. Suc k < length (batches n (drop n xs)) \<longrightarrow> length (batches n (drop n xs) ! k) = n"
      using 1 False by simp
    show ?thesis
    proof (intro allI impI)
      fix k assume k: "Suc k < length (batches n xs)"
      then have ne: "batches n (drop n xs) \<noteq> []"
        using False 1(2) by (auto simp: batches_Cons)
      then have "drop n xs \<noteq> []" using batches_Nil[of n] by auto
      then have "n < length xs" by simp
      then have "length (take n xs) = n" by simp
      then show "length (batches n xs ! k) = n"
        using k ih False 1(2) by (cases k) (simp_all add: batches_Cons)
    qed
  qed
qed

lemma call_embeddings_ok:
  assumes "\<forall>batch w. fst (embeddings_create svc batch w) = Inr (map f batch)"
  shows "\<exists>w'. call_embeddings svc batch st = (Inr (map f batch), (w', snd st @ [EmbeddingsCall batch]))"
proof -
  obtain w tr where st: "st = (w, tr)" by (cases st)
  obtain r w' where c: "embeddings_create svc batch w = (r, w')"
    by (cases "embeddings_create svc batch w")
  have "r = Inr (map f batch)" using assms[rule_format, of batch w] c by simp
  then show ?thesis using st c by (simp add: call_embeddings_def)
qed

lemma embed_loop_batches:
  assumes "\<forall>batch w. fst (embeddings_create svc batch w) = Inr (map f batch)"
  shows "\<exists>w'. embed_loop svc texts i embeddings st =
           (Inr (embeddings @ map f (drop i texts)),
            (w', snd st @ batch_events (batches 10 (drop i texts))))"
  using assms
proof (induction svc texts i embeddings st rule: embed_loop.induct)
  case (1 svc texts i embeddings st)
  show ?case
  proof (cases "i < length texts")
    case False
    then have "embed_loop svc texts i embeddings st = (Inr embeddings, st)"
      by (subst embed_loop.simps) simp
    moreover obtain w tr where "st = (w, tr)" by (cases st)
    ultimately show ?thesis
      using False by (simp add: batches_Nil)
  next
    case True
    let ?batch = "slice texts i (i + 10)"
    obtain w1 where c: "call_embeddings svc ?batch st =
        (Inr (map f ?batch), (w1, snd st @ [EmbeddingsCall ?batch]))"
      using call_embeddings_ok[OF 1(2), of "slice texts i (i + 10)" st] by (elim exE)
    let ?st1 = "(w1, snd st @ [EmbeddingsCall ?batch])"
    let ?st2 = "if i + 10 < length texts then pause ?st1 else ?st1"
    have step: "embed_loop svc texts i embeddings st =
        embed_loop svc texts (i + 10) (embeddings @ map f ?batch) ?st2"
      using True c by (subst embed_loop.simps) simp
    obtain w' where ih: "embed_loop svc texts (i + 10) (embeddings @ map f ?batch) ?st2 =
           (Inr ((embeddings @ map f ?batch) @ map f (drop (i + 10) texts)),
            (w', snd ?st2 @ batch_events (batches 10 (drop (i + 10) texts))))"
      using 1(1)[OF True c[symmetric] refl 1(2)] by (elim exE)
    have dr: "drop i texts = ?batch @ drop (i + 10) texts"
      by (rule slice_append_drop[symmetric])
    have b: "?batch = take 10 (drop i texts)"
      by (simp add: slice_def)
    have dd: "drop 10 (drop i texts) = drop (i + 10) texts"
      by (simp only: drop_drop add.commute[of 10 i])
    have ne: "drop i texts \<noteq> []" using True by simp
    have bt: "batches 10 (drop i texts) = ?batch # batches 10 (drop (i + 10) texts)"
      using batches_Cons[OF ne, of 10] b dd by simp
    have "map f (drop i texts) = map f (?batch @ drop (i + 10) texts)"
      by (rule arg_cong[OF dr])
    then have res: "(embeddings @ map f ?batch) @ map f (drop (i + 10) texts)
        = embeddings @ map f (drop i texts)"
      by simp
    have ev: "snd ?st2 @ batch_events (batches 10 (drop (i + 10) texts))
        = snd st @ batch_events (batches 10 (drop i texts))"
    proof (cases "i + 10 < length texts")
      case True
      then have "batches 10 (drop (i + 10) texts) \<noteq> []"
        by (simp add: batches_eq_Nil)
      then obtain c cs where "batches 10 (drop (i + 10) texts) = c # cs"
        by (cases "batches 10 (drop (i + 10) texts)") auto
      then show ?thesis using True bt by (simp add: pause_def)
    next
      case False
      then have "batches 10 (drop (i + 10) texts) = []"
        by (simp add: batches_Nil)
      then show ?thesis using False bt by simp
    qed
    show ?thesis
      unfolding step ih res ev by blast
  qed
qed

text \<open>
  Claim C6. For non-empty \<open>texts\<close> and an embedding service that answers every batch with
  the vectors \<open>map f batch\<close> of a per-text function \<open>f\<close>, \<^const>\<open>getEmbeddings\<close> calls the
  service once per batch of \<open>batches 10 texts\<close>, in order, pausing between two batches and
  not after the last, and returns the concatenation of the per-batch results, which is
  \<open>map f texts\<close>: the vectors are aligned with the texts. The batches are consecutive,
  non-empty, of at most ten texts, all but the last of exactly ten.
\<close>

theorem getEmbeddings_batches:
  assumes "texts \<noteq> []"
    and "\<forall>batch w. fst (embeddings_create svc batch w) = Inr (map f batch)"
  shows "(\<exists>w'. getEmbeddings svc texts (w, trace) =
            (Inr (concat (map (map f) (batches 10 texts))),
             (w', trace @ batch_events (batches 10 texts))))
       \<and> concat (map (map f) (batches 10 texts)) = map f texts
       \<and> concat (batches 10 texts) = texts
       \<and> (\<forall>b\<in>set (batches 10 texts). b \<noteq> [] \<and> length b \<le> 10)
       \<and> (\<forall>k. Suc k < length (batches 10 texts) \<longrightarrow> length (batches 10 texts ! k) = 10)"
proof -
  have c: "concat (batches 10 texts) = texts"
    by (rule concat_batches) simp
  have m: "concat (map (map f) (batches 10 texts)) = map f texts"
    using c by (metis map_concat)
  obtain w' where l: "embed_loop svc texts 0 [] (w, trace) =
      (Inr ([] @ map f (drop 0 texts)), (w', snd (w, trace) @ batch_events (batches 10 (drop 0 texts))))"
    using embed_loop_batches[OF assms(2), of texts 0 "[]" "(w, trace)"] by (elim exE)
  have "getEmbeddings svc texts (w, trace) =
      (Inr (concat (map (map f) (batches 10 texts))), (w', trace @ batch_events (batches 10 texts)))"
    using assms(1) l m by (simp add: getEmbeddings_def)
  then have e: "\<exists>w'. getEmbeddings svc texts (w, trace) =
      (Inr (concat (map (map f) (batches 10 texts))), (w', trace @ batch_events (batches 10 texts)))"
    by (rule exI[of _ w'])
  have s: "\<forall>b\<in>set (batches 10 texts). b \<noteq> [] \<and> length b \<le> 10"
    by (rule batches_sizes) simp
  have f: "\<forall>k. Suc k < length (batches 10 texts) \<longrightarrow> length (batches 10 texts ! k) = 10"
    by (rule batches_full) simp
  show ?thesis
    by (rule conjI[OF e conjI[OF m conjI[OF c conjI[OF s f]]]])
qed


theorem getEmbeddings_batches_witness:
  "[[0x61], [0x62], [0x63], [0x64], [0x65], [0x66], [0x67], [0x68], [0x69], [0x6A], [0x6B], [0x6C]]
     \<noteq> ([] :: jsstring list)
   \<and> getEmbeddings example_services
       [[0x61], [0x62], [0x63], [0x64], [0x65], [0x66], [0x67], [0x68], [0x69], [0x6A], [0x6B], [0x6C]]
       ((), [])
     = (Inr [[1, 1], [1, 1], [1, 1], [1, 1], [1, 1], [1, 1], [1, 1], [1, 1], [1, 1], [1, 1],
             [1, 1], [1, 1]],
        ((), [EmbeddingsCall
                [[0x61], [0x62], [0x63], [0x64], [0x65], [0x66], [0x67], [0x68], [0x69], [0x6A]],
              Pause,
              EmbeddingsCall [[0x6B], [0x6C]]]))"
proof -
  let ?texts = "[[0x61], [0x62], [0x63], [0x64], [0x65], [0x66], [0x67], [0x68], [0x69], [0x6A],
                 [0x6B], [0x6C]] :: jsstring list"
  let ?f = "\<lambda>t :: jsstring. [1, real (length t)]"
  have ne: "?texts \<noteq> []" by simp
  have svc: "\<forall>batch w. fst (embeddings_create example_services batch w) = Inr (map ?f batch)"
    by (simp add: example_services_def)
  have b: "batches 10 ?texts
      = [[[0x61], [0x62], [0x63], [0x64], [0x65], [0x66], [0x67], [0x68], [0x69], [0x6A]],
         [[0x6B], [0x6C]]]"
    by (simp add: batches_Cons batches_Nil)
  obtain w' :: unit where
    "getEmbeddings example_services ?texts ((), []) =
       (Inr (concat (map (map ?f) (batches 10 ?texts))),
        (w', [] @ batch_events (batches 10 ?texts)))"
    using getEmbeddings_batches [OF ne svc, of "()" "[]"] by (elim conjE exE)
  then show ?thesis
    unfolding b by simp
qed

text \<open>
  Claim C4 does not hold of the code. For empty \<open>texts\<close> the error thrown by the check of
  the argument is caught by the function's own \<^verbatim>\<open>catch\<close>, and the caller receives the same
  error, with the same message, as for a failure of the service.
\<close>

theorem getEmbeddings_empty_uniform_error:
  "getEmbeddings svc [] st = (Inl (Error (lit ''Failed to generate embeddings'')), st)
   \<and> (texts \<noteq> [] \<and> fst (embeddings_create svc (slice texts 0 10) (fst st)) = Inl e
        \<longrightarrow> fst (getEmbeddings svc texts st) = Inl (Error (lit ''Failed to generate embeddings'')))"
proof (intro conjI impI)
  show "getEmbeddings svc [] st = (Inl (Error (lit ''Failed to generate embeddings'')), st)"
    by (simp add: getEmbeddings_def)
next
  assume h: "texts \<noteq> [] \<and> fst (embeddings_create svc (slice texts 0 10) (fst st)) = Inl e"
  obtain w tr where st: "st = (w, tr)" by (cases st)
  obtain r w' where c: "embeddings_create svc (slice texts 0 10) w = (r, w')"
    by (cases "embeddings_create svc (slice texts 0 10) w")
  have r: "r = Inl e" using h st c by simp
  have "call_embeddings svc (slice texts 0 (0 + 10)) st = (Inl e, (w', tr @ [EmbeddingsCall (slice texts 0 10)]))"
    using st c r by (simp add: call_embeddings_def)
  then have "embed_loop svc texts 0 [] st = (Inl e, (w', tr @ [EmbeddingsCall (slice texts 0 10)]))"
    using h by (subst embed_loop.simps) simp
  then show "fst (getEmbeddings svc texts st) = Inl (Error (lit ''Failed to generate embeddings''))"
    using h by (simp add: getEmbeddings_def)
qed

theorem getEmbeddings_empty_uniform_error_witness:
  "getEmbeddings (example_services \<lparr> embeddings_create := (\<lambda>batch w. (Inl (Error (lit ''quota'')), w)) \<rparr>)
     [] ((), []) = (Inl (Error (lit ''Failed to generate embeddings'')), ((), []))
   \<and> fst (getEmbeddings
        (example_services \<lparr> embeddings_create := (\<lambda>batch w. (Inl (Error (lit ''quota'')), w)) \<rparr>)
        [lit ''t''] ((), [])) = Inl (Error (lit ''Failed to generate embeddings''))"
  using getEmbeddings_empty_uniform_error
    [of "example_services \<lparr> embeddings_create := (\<lambda>batch w. (Inl (Error (lit ''quota'')), w)) \<rparr>"
        "((), [])" "[lit ''t'']" "Error (lit ''quota'')"]
  by simp

section \<open>Properties of the request handler\<close>

text \<open>
  For a request body that is not \<^verbatim>\<open>null\<close>: when the \<^verbatim>\<open>documents\<close> field is missing (or not
  truthy), or the \<^verbatim>\<open>questions\<close> field is missing or not an array, or is the empty array,
  \<^const>\<open>POST\<close> answers 400 with its fixed message, and the state is unchanged: no service
  was called.
\<close>

lemma POST_invalid_request:
  assumes "body \<noteq> JNull"
    and "get_property body (lit ''documents'') = None
         \<or> \<not> truthy (get_property body (lit ''documents''))
         \<or> \<not> isArray (get_property body (lit ''questions''))
         \<or> get_property body (lit ''questions'') = Some (JArr [])"
  shows "POST svc (Inr body) st =
           (Failure 400 (lit ''Invalid request. Please provide documents URL and questions array.''),
            st)"
proof -
  have bad: "\<not> truthy (get_property body (lit ''documents''))
        \<or> \<not> truthy (get_property body (lit ''questions''))
        \<or> \<not> isArray (get_property body (lit ''questions''))
        \<or> length (elements (get_property body (lit ''questions''))) = 0"
    using assms(2) by auto
  have "handle svc (Inr body) st =
      (Inr (Failure 400 (lit ''Invalid request. Please provide documents URL and questions array.'')),
       st)"
    using assms(1) bad by (cases body) (simp_all add: handle_def Let_def)
  then show ?thesis by (simp add: POST_def)
qed

text \<open>A request without the \<^verbatim>\<open>documents\<close> field.\<close>

lemma POST_invalid_request_example:
  "POST example_services (Inr (JObj [(lit ''questions'', JArr [JStr (lit ''what'')])])) ((), [])
     = (Failure 400 (lit ''Invalid request. Please provide documents URL and questions array.''),
        ((), []))"
proof -
  have n: "JObj [(lit ''questions'', JArr [JStr (lit ''what'')])] \<noteq> JNull" by simp
  have d: "get_property (JObj [(lit ''questions'', JArr [JStr (lit ''what'')])]) (lit ''documents'')
      = None"
    by (simp add: lit_def)
  show ?thesis
    by (rule POST_invalid_request [OF n disjI1 [OF d]])
qed

text \<open>
  Claim C8 does not hold of the code for every request that lacks the \<^verbatim>\<open>documents\<close> field.
  When the body is \<^verbatim>\<open>null\<close>, both fields are missing, but the destructuring of the body,
  which comes before the check of the fields, throws, and the outer \<^verbatim>\<open>catch\<close> answers 500
  with the message of that \<^verbatim>\<open>TypeError\<close>, not 400. No service is called. (For every other
  body the lemma \<open>POST_invalid_request\<close> gives what the claim says.)
\<close>

theorem POST_null_body_internal_error:
  "get_property JNull (lit ''documents'') = None
   \<and> get_property JNull (lit ''questions'') = None
   \<and> (\<exists>m. POST svc (Inr JNull) st = (Failure 500 m, st))"
  by (simp add: POST_def handle_def)

lemma to_string_poisoned:
  "to_string num (JObj [(lit ''toString'', v)])
     = Inl (TypeError (lit ''Cannot convert object to primitive value''))"
  by simp

lemma try_question_not_string:
  "(\<forall>s. question \<noteq> JStr s) \<Longrightarrow> \<exists>e. try_question svc E C question st = (Inl e, st)"
  by (cases question) (simp_all add: try_question_def)

lemma process_question_not_string:
  assumes "\<forall>s. question \<noteq> JStr s"
  shows "process_question svc E C question st =
     (case to_string (number_to_string svc) question of
        Inl e \<Rightarrow> (Inl e, st)
      | Inr str \<Rightarrow> (Inr (lit ''Error: Failed to process the question: '' @ str), st))"
proof -
  obtain e where "try_question svc E C question st = (Inl e, st)"
    using try_question_not_string[OF assms] by blast
  then show ?thesis by (simp add: process_question_def)
qed

text \<open>
  Claim C10 does not hold of the code for every value that is not a string. A question that
  is an object with an own property \<^verbatim>\<open>toString\<close> makes \<^verbatim>\<open>question.trim()\<close> throw, and then
  makes the handler's own template literal throw: nothing is pushed, the loop is left, and
  the remaining questions are not processed. (For \<^verbatim>\<open>null\<close>, a number and every other value
  whose string conversion succeeds, the lemmas \<open>process_question_not_string\<close> and
  \<open>question_loop_length\<close> give what the claim says.)
\<close>

theorem question_loop_aborts_on_unprintable_question:
  "question_loop svc chunkEmbeddings chunks (JObj [(lit ''toString'', v)] # rest) results st
     = (Inl (TypeError (lit ''Cannot convert object to primitive value'')), st)"
  by (simp add: process_question_not_string del: to_string.simps add: to_string_poisoned)

lemma process_question_printable:
  assumes "to_string (number_to_string svc) question = Inr str"
  shows "\<exists>r st'. process_question svc E C question st = (Inr r, st')"
proof -
  obtain x st' where t: "try_question svc E C question st = (x, st')"
    by (cases "try_question svc E C question st")
  show ?thesis
    using t assms by (cases x) (simp_all add: process_question_def)
qed

lemma question_loop_length:
  assumes "\<forall>q\<in>set questions. \<exists>str. to_string (number_to_string svc) q = Inr str"
  shows "\<exists>answers st'. question_loop svc E C questions results st = (Inr (results @ answers), st')
           \<and> length answers = length questions"
  using assms
proof (induction questions arbitrary: results st)
  case Nil
  then show ?case by simp
next
  case (Cons q qs)
  obtain str where "to_string (number_to_string svc) q = Inr str"
    using Cons.prems by auto
  then obtain r st1 where p: "process_question svc E C q st = (Inr r, st1)"
    using process_question_printable by blast
  obtain answers st' where l: "question_loop svc E C qs (results @ [r]) st1 = (Inr ((results @ [r]) @ answers), st')"
      "length answers = length qs"
    using Cons.IH[of "results @ [r]" st1] Cons.prems by auto
  have "question_loop svc E C (q # qs) results st = (Inr (results @ (r # answers)), st')"
    using p l(1) by simp
  moreover have "length (r # answers) = length (q # qs)"
    using l(2) by simp
  ultimately show ?case by blast
qed

lemma question_loop_strings:
  "\<exists>answers st'. question_loop svc E C (map JStr qs) [] st = (Inr answers, st')
     \<and> length answers = length qs"
  using question_loop_length[of "map JStr qs" svc E C "[]" st] by auto

lemma question_loop_Inr_length:
  "question_loop svc E C questions results st = (Inr answers, st')
     \<Longrightarrow> length answers = length results + length questions"
proof (induction questions arbitrary: results st)
  case Nil
  then show ?case by simp
next
  case (Cons q qs)
  obtain x st1 where p: "process_question svc E C q st = (x, st1)"
    by (cases "process_question svc E C q st")
  show ?case
  proof (cases x)
    case (Inl e)
    then show ?thesis using Cons.prems p by simp
  next
    case (Inr r)
    then have "question_loop svc E C qs (results @ [r]) st1 = (Inr answers, st')"
      using Cons.prems p by simp
    then show ?thesis using Cons.IH by fastforce
  qed
qed

lemma POST_answers_length:
  assumes "POST svc (Inr body) st = (Answers answers, st')"
  shows "length answers = length (elements (get_property body (lit ''questions'')))"
proof -
  obtain x where h: "handle svc (Inr body) st = (x, st')" and x: "x = Inr (Answers answers)"
    using assms by (auto simp: POST_def split: prod.splits sum.splits)
  have "\<exists>E C st2. question_loop svc E C (elements (get_property body (lit ''questions''))) [] st2
          = (Inr answers, st')"
    using h x
    by (cases body)
       (auto simp: handle_def Let_def split: prod.splits sum.splits if_splits)
  then show ?thesis
    using question_loop_Inr_length by fastforce
qed

text \<open>
  Claim C1 does not hold of the code for every request that reaches the loop. With two
  questions, the second an object with an own property \<^verbatim>\<open>toString\<close>, the first question is
  answered, the second leaves the loop through its handler, and the response is a 500 error
  with no answers list. (By \<open>POST_answers_length\<close> an answers list, when one is returned, has
  one entry per question, and by \<open>question_loop_length\<close> one is returned whenever the string
  conversion of every question succeeds, as it does for strings.)
\<close>

theorem POST_aborts_on_unprintable_question:
  "POST example_services
     (Inr (JObj [(lit ''documents'', JStr (lit ''https://host/doc.pdf'')),
                 (lit ''questions'', JArr [JStr (lit ''what''), JObj [(lit ''toString'', JNum 0)]])]))
     ((), [])
   = (Failure 500 (lit ''Cannot convert object to primitive value''),
      ((), [FetchCall (Some (JStr (lit ''https://host/doc.pdf''))), PdfCall,
            EmbeddingsCall [lit ''alpha beta''], EmbeddingsCall [lit ''what''],
            AskCall (lit ''what'') [lit ''alpha beta'']]))"
  by (simp add: POST_def handle_def Let_def example_services_def download_def call_fetch_def
        call_pdf_def call_embeddings_def call_ask_def getEmbeddings_def embed_loop.simps
        chunkText_def chunk_loop.simps split_ws.simps slice_def sp_def trim_def is_ws_def lit_def
        process_question_def try_question_def findRelevantChunks_def cosineSimilarity_def)

text \<open>Four questions: one answered, one blank, \<^verbatim>\<open>null\<close> and a number.\<close>

lemma POST_example_answers:
  "POST example_services
     (Inr (JObj [(lit ''documents'', JStr (lit ''https://host/doc.pdf'')),
                 (lit ''questions'', JArr [JStr (lit ''what''), JStr (lit '' ''), JNull, JNum 0])]))
     ((), [])
   = (Answers [lit ''answer'', lit ''Error: Empty question provided'',
               lit ''Error: Failed to process the question: null'',
               lit ''Error: Failed to process the question: 0''],
      ((), [FetchCall (Some (JStr (lit ''https://host/doc.pdf''))), PdfCall,
            EmbeddingsCall [lit ''alpha beta''], EmbeddingsCall [lit ''what''],
            AskCall (lit ''what'') [lit ''alpha beta'']]))"
  by (simp add: POST_def handle_def Let_def example_services_def download_def call_fetch_def
        call_pdf_def call_embeddings_def call_ask_def getEmbeddings_def embed_loop.simps
        chunkText_def chunk_loop.simps split_ws.simps slice_def sp_def trim_def is_ws_def lit_def
        process_question_def try_question_def findRelevantChunks_def cosineSimilarity_def)

end
